theory Spec2Isabelle
  imports Main "HOL-Library.AList" "HOL-Library.Finite_Map" "HOL-Library.Multiset"
    "HOL-Library.Word"
begin

section \<open>Data model of main.go\<close>

text \<open>
  \<^verbatim>\<open>type Status string\<close> with the three constants of the source. Any other string
  (for instance the zero value, the empty string) is a status too, as in Go.
\<close>

type_synonym Status = string

definition Pending :: Status where "Pending = ''Pending''"
definition Passed :: Status where "Passed = ''Passed''"
definition Failed :: Status where "Failed = ''Failed''"

text \<open>
  \<^verbatim>\<open>type Vertex struct\<close>. The field \<^verbatim>\<open>Dag *Dag\<close>, the pointer to the graph that
  registered the vertex, is represented by passing that graph to \<open>SetPass\<close> and \<open>SetFail\<close>;
  a \<^verbatim>\<open>*Vertex\<close> held by the graph is represented by the key it is stored under.
\<close>

record Vertex =
  ID :: string
  Status :: Status
  Loop :: int
  CanFail :: bool

text \<open>
  \<^verbatim>\<open>type Dag struct\<close>. \<open>Vertices\<close> is iterated by \<open>Next\<close>, so it is an association
  list (written by \<open>AList.update\<close>, read by \<open>map_of\<close>); the two adjacency maps are only
  looked up and stored to, so they are finite maps. The mutex has no state of its own.
\<close>

record Dag =
  Vertices :: "(string \<times> Vertex) list"
  ConnectionsParents :: "(string, string list) fmap"
  ConnectionsChildren :: "(string, string list) fmap"
  Status_Dag :: Status
  IsStarted :: bool

text \<open>
  Every \<^verbatim>\<open>panic\<close> of the source, and what the Go runtime can end the program with:
  the nil dereference, the panic of \<^verbatim>\<open>sync.WaitGroup\<close> on a negative counter, and the
  fatal error when \<^verbatim>\<open>wg.Wait\<close> can never return.
\<close>

datatype panic =
  AddVertexStarted
  | AddEdgeStarted
  | CyclicEdge string string
  | DagHasFailed
  | NilDereference
  | NegativeWaitGroup
  | Deadlock

text \<open>Reading a Go map of slices at a missing key gives the nil slice.\<close>

definition neighbours :: "(string, string list) fmap \<Rightarrow> string \<Rightarrow> string list" where
  "neighbours m k = (case fmlookup m k of None \<Rightarrow> [] | Some xs \<Rightarrow> xs)"

definition NewDag :: Dag where
  "NewDag = \<lparr>Vertices = [], ConnectionsParents = fmempty, ConnectionsChildren = fmempty,
     Status_Dag = Pending, IsStarted = False\<rparr>"

definition HasFailed :: "Dag \<Rightarrow> bool" where
  "HasFailed d = (Status_Dag d = Failed)"

definition HasSucceeded :: "Dag \<Rightarrow> bool" where
  "HasSucceeded d = (Status_Dag d = Passed)"

definition HasFinished :: "Dag \<Rightarrow> bool" where
  "HasFinished d = (HasFailed d \<or> HasSucceeded d)"

section \<open>Vertex status writes\<close>

text \<open>
  \<open>SetPass d k\<close> is \<^verbatim>\<open>d.Vertices[k].SetPass()\<close> for a vertex whose owner is \<open>d\<close>:
  a missing key gives the nil pointer, whose dereference panics.
\<close>

definition SetPass :: "Dag \<Rightarrow> string \<Rightarrow> panic + Dag" where
  "SetPass d k =
     (case map_of (Vertices d) k of
        None \<Rightarrow> Inl NilDereference
      | Some v \<Rightarrow>
          if \<not> HasFailed d
          then Inr (d\<lparr>Vertices := AList.update k (v\<lparr>Status := Passed\<rparr>) (Vertices d)\<rparr>)
          else Inr d)"

definition SetFail :: "Dag \<Rightarrow> string \<Rightarrow> panic + Dag" where
  "SetFail d k =
     (case map_of (Vertices d) k of
        None \<Rightarrow> Inl NilDereference
      | Some v \<Rightarrow>
          if \<not> HasFailed d
          then let d1 = d\<lparr>Vertices := AList.update k (v\<lparr>Status := Failed\<rparr>) (Vertices d)\<rparr>
               in if \<not> CanFail v then Inr (d1\<lparr>Status_Dag := Failed\<rparr>) else Inr d1
          else Inr d)"

section \<open>Graph construction\<close>

definition AddVertex :: "Dag \<Rightarrow> Vertex \<Rightarrow> panic + Dag" where
  "AddVertex d v =
     (if IsStarted d then Inl AddVertexStarted
      else Inr (d\<lparr>Vertices := AList.update (ID v) v (Vertices d)\<rparr>))"

text \<open>
  \<open>IsCyclic\<close> recurses inside its range loop. \<open>IsCyclic_range cc from cs\<close> is that loop
  with \<open>cs\<close> the children still to visit; the recursive call of the source is the loop
  over the children of \<open>child\<close>. The recursion need not end, so the result is an option
  and \<open>None\<close> is a call that never returns.
\<close>

partial_function (option) IsCyclic_range ::
  "(string, string list) fmap \<Rightarrow> string \<Rightarrow> string list \<Rightarrow> bool option" where
  "IsCyclic_range cc from cs =
     (case cs of
        [] \<Rightarrow> Some False
      | child # rest \<Rightarrow>
          if child = from then Some True
          else Option.bind (IsCyclic_range cc from (neighbours cc child))
                 (\<lambda>b. if b then Some True else IsCyclic_range cc from rest))"

definition IsCyclic :: "Dag \<Rightarrow> string \<Rightarrow> string \<Rightarrow> bool option" where
  "IsCyclic d from to =
     IsCyclic_range (ConnectionsChildren d) from (neighbours (ConnectionsChildren d) to)"

definition AddEdge :: "Dag \<Rightarrow> string \<Rightarrow> string \<Rightarrow> (panic + Dag) option" where
  "AddEdge d from to =
     (if IsStarted d then Some (Inl AddEdgeStarted)
      else case IsCyclic d from to of
             None \<Rightarrow> None
           | Some True \<Rightarrow> Some (Inl (CyclicEdge from to))
           | Some False \<Rightarrow>
               Some (Inr (d\<lparr>ConnectionsParents :=
                              fmupd to (neighbours (ConnectionsParents d) to @ [from])
                                (ConnectionsParents d),
                            ConnectionsChildren :=
                              fmupd from (neighbours (ConnectionsChildren d) from @ [to])
                                (ConnectionsChildren d)\<rparr>)))"

section \<open>Readiness\<close>

text \<open>\<open>CanExecute_range d v ps\<close> is the range loop of \<open>CanExecute\<close> over the parents \<open>ps\<close>
  still to visit, followed by the test of the vertex's own status.\<close>

fun CanExecute_range :: "Dag \<Rightarrow> Vertex \<Rightarrow> string list \<Rightarrow> bool" where
  "CanExecute_range d v [] = (if Status v = Pending then True else False)"
| "CanExecute_range d v (parentID # rest) =
     (case map_of (Vertices d) parentID of
        None \<Rightarrow> False
      | Some parent \<Rightarrow>
          if Status parent = Pending then False else CanExecute_range d v rest)"

definition CanExecute :: "Dag \<Rightarrow> Vertex \<Rightarrow> bool" where
  "CanExecute d v = CanExecute_range d v (neighbours (ConnectionsParents d) (ID v))"

text \<open>
  \<open>Next\<close> writes \<open>IsStarted\<close> before it can panic, so the graph is returned in both
  cases. The vertices come in the order of the association list; Go leaves the order open.
\<close>

definition Next :: "Dag \<Rightarrow> Dag \<times> (panic + Vertex list)" where
  "Next d =
     (let d1 = d\<lparr>IsStarted := True\<rparr>
      in if HasFailed d1 then (d1, Inl DagHasFailed)
         else (d1, Inr (filter (CanExecute d1) (map snd (Vertices d1)))))"

section \<open>The wave scheduler\<close>

text \<open>
  One execution attempt is one goroutine of \<open>ExecuteVertices\<close>: it reads the clock and
  calls \<open>SetPass\<close> or \<open>SetFail\<close> on \<^verbatim>\<open>d.Vertices[vertex.Id()]\<close>. Both run under the
  graph's mutex, so a wave is a sequence of attempts. An attempt is the vertex id and
  whether the clock read was even.
\<close>

type_synonym attempt = "string \<times> bool"

definition run_attempt :: "Dag \<Rightarrow> attempt \<Rightarrow> panic + Dag" where
  "run_attempt d a = (if snd a then SetPass d (fst a) else SetFail d (fst a))"

fun run_attempts :: "Dag \<Rightarrow> attempt list \<Rightarrow> panic + Dag" where
  "run_attempts d [] = Inr d"
| "run_attempts d (a # as) =
     (case run_attempt d a of Inl e \<Rightarrow> Inl e | Inr d1 \<Rightarrow> run_attempts d1 as)"

text \<open>
  The goroutines a wave starts: \<open>Loop v\<close> of them for every ready vertex \<open>v\<close> (each
  iteration of the range loop has its own \<open>v\<close>). A schedule of the wave is any
  interleaving of them with any outcomes.
\<close>

definition dispatched :: "Vertex list \<Rightarrow> string list" where
  "dispatched vs = concat (map (\<lambda>v. replicate (nat (Loop v)) (ID v)) vs)"

definition valid_schedule :: "Vertex list \<Rightarrow> attempt list \<Rightarrow> bool" where
  "valid_schedule vs evs = (mset (map fst evs) = mset (dispatched vs))"

text \<open>
  The counter of a \<^verbatim>\<open>sync.WaitGroup\<close> is a signed 32-bit integer: \<^verbatim>\<open>wg.Add(delta)\<close>
  adds the low 32 bits of \<open>delta\<close> to it and panics when the result is negative.
  \<open>wg_Add_range c vs\<close> is the counter after the \<^verbatim>\<open>wg.Add(v.Loop)\<close> of every ready vertex
  in the order of the range loop, from the counter \<open>c\<close>, and \<open>None\<close> when one of them
  panics. It follows the executions of a wave in which no goroutine has called
  \<^verbatim>\<open>wg.Done\<close> before the last \<^verbatim>\<open>wg.Add\<close>; a goroutine that finishes earlier lowers the
  counter the later calls see.
\<close>

fun wg_Add_range :: "32 word \<Rightarrow> Vertex list \<Rightarrow> 32 word option" where
  "wg_Add_range c [] = Some c"
| "wg_Add_range c (v # vs) =
     (let c1 = c + word_of_int (Loop v)
      in if sint c1 < 0 then None else wg_Add_range c1 vs)"

text \<open>
  What the wait group does to a wave, \<open>None\<close> when it lets the wave through. The wave
  starts \<open>length (dispatched vs)\<close> goroutines and each calls \<^verbatim>\<open>wg.Done\<close> once. When the
  counter after the \<^verbatim>\<open>wg.Add\<close> calls is smaller than that, a \<^verbatim>\<open>wg.Done\<close> finds it at 0
  and panics; when it is larger, it is still positive after the last goroutine and
  \<^verbatim>\<open>wg.Wait\<close> blocks for ever, which the runtime ends with a fatal error. When the
  \<open>Loop\<close>s of the wave are not negative and their sum is below \<open>2 ^ 31\<close>, the counter
  is the number of unfinished goroutines at every moment of every execution, and the
  wave goes through.
\<close>

definition wait_group :: "Vertex list \<Rightarrow> panic option" where
  "wait_group vs =
     (case wg_Add_range 0 vs of
        None \<Rightarrow> Some NegativeWaitGroup
      | Some c \<Rightarrow>
          if sint c < int (length (dispatched vs)) then Some NegativeWaitGroup
          else if int (length (dispatched vs)) < sint c then Some Deadlock
          else None)"

text \<open>
  \<open>ExecuteVertices sched n d\<close> is the loop of \<open>ExecuteVertices\<close> from its \<open>n\<close>-th wave on,
  where \<open>sched n vs\<close> is the schedule the clock and the Go scheduler produce for wave \<open>n\<close>
  with ready vertices \<open>vs\<close>; it stands for a run of the program when
  \<open>valid_schedule vs (sched n vs)\<close> holds. The loop need not end: \<open>None\<close> is a run that
  never returns.
\<close>

partial_function (option) ExecuteVertices ::
  "(nat \<Rightarrow> Vertex list \<Rightarrow> attempt list) \<Rightarrow> nat \<Rightarrow> Dag \<Rightarrow> (panic + Dag) option" where
  "ExecuteVertices sched n d =
     (if HasFinished d then Some (Inr d)
      else case Next d of
             (d1, Inl e) \<Rightarrow> Some (Inl e)
           | (d1, Inr verticesToProcess) \<Rightarrow>
               let d2 = (if verticesToProcess = [] then d1\<lparr>Status_Dag := Passed\<rparr> else d1)
               in (case wait_group verticesToProcess of
                     Some e \<Rightarrow> Some (Inl e)
                   | None \<Rightarrow>
                       (case run_attempts d2 (sched n verticesToProcess) of
                          Inl e \<Rightarrow> Some (Inl e)
                        | Inr d3 \<Rightarrow> ExecuteVertices sched (Suc n) d3)))"

text \<open>
  The same loop as a transition system, one step per readiness computation and one per
  attempt: a configuration is the graph and the attempts of the current wave that have
  not run yet.
\<close>

inductive sched_step :: "Dag \<times> attempt list \<Rightarrow> Dag \<times> attempt list \<Rightarrow> bool" where
  wave: "\<not> HasFinished d \<Longrightarrow> Next d = (d1, Inr vs) \<Longrightarrow> \<not> list_ex (\<lambda>v. Loop v < 0) vs \<Longrightarrow>
         valid_schedule vs evs \<Longrightarrow>
         sched_step (d, []) (if vs = [] then d1\<lparr>Status_Dag := Passed\<rparr> else d1, evs)"
| attempt: "run_attempt d a = Inr d1 \<Longrightarrow> sched_step (d, a # as) (d1, as)"

section \<open>The sample graph of main\<close>

fun AddVertices :: "Dag \<Rightarrow> Vertex list \<Rightarrow> panic + Dag" where
  "AddVertices d [] = Inr d"
| "AddVertices d (v # vs) =
     (case AddVertex d v of Inl e \<Rightarrow> Inl e | Inr d1 \<Rightarrow> AddVertices d1 vs)"

fun AddEdges :: "Dag \<Rightarrow> (string \<times> string) list \<Rightarrow> (panic + Dag) option" where
  "AddEdges d [] = Some (Inr d)"
| "AddEdges d ((from, to) # es) =
     (case AddEdge d from to of
        None \<Rightarrow> None
      | Some (Inl e) \<Rightarrow> Some (Inl e)
      | Some (Inr d1) \<Rightarrow> AddEdges d1 es)"

definition main_vertices :: "Vertex list" where
  "main_vertices =
     [\<lparr>ID = ''A'', Status = Pending, Loop = 1, CanFail = True\<rparr>,
      \<lparr>ID = ''B'', Status = Pending, Loop = 1, CanFail = False\<rparr>,
      \<lparr>ID = ''C'', Status = Pending, Loop = 11, CanFail = True\<rparr>,
      \<lparr>ID = ''D'', Status = Pending, Loop = 3, CanFail = True\<rparr>,
      \<lparr>ID = ''E'', Status = Pending, Loop = 1, CanFail = True\<rparr>]"

definition main_edges :: "(string \<times> string) list" where
  "main_edges =
     [(''A'', ''B''), (''A'', ''C''), (''B'', ''D''), (''C'', ''D''),
      (''D'', ''E''), (''A'', ''D''), (''A'', ''E''), (''C'', ''E'')]"

section \<open>Relations of the adjacency maps\<close>

text \<open>The edges a map of neighbour lists stores: from each key to the ids in its list.\<close>

definition edges_of :: "(string, string list) fmap \<Rightarrow> (string \<times> string) set" where
  "edges_of m = {(k, x). x \<in> set (neighbours m k)}"

text \<open>Both relations are from parent to child.\<close>

definition child_rel :: "Dag \<Rightarrow> (string \<times> string) set" where
  "child_rel d = edges_of (ConnectionsChildren d)"

definition parent_rel :: "Dag \<Rightarrow> (string \<times> string) set" where
  "parent_rel d = (edges_of (ConnectionsParents d))\<inverse>"

section \<open>Invariants of the scheduler\<close>


text \<open>
  What \<open>AddVertex\<close> establishes: every vertex is stored once, under its own id.
\<close>

definition keyed :: "Dag \<Rightarrow> bool" where
  "keyed d = (distinct (map fst (Vertices d)) \<and> (\<forall>(k, v) \<in> set (Vertices d). ID v = k))"

text \<open>The ids of the registered vertices whose status is Pending.\<close>

definition pending :: "Dag \<Rightarrow> string set" where
  "pending d = {k. \<exists>v. map_of (Vertices d) k = Some v \<and> Status v = Pending}"

text \<open>
  \<open>evolves T d d1\<close>: \<open>d1\<close> is \<open>d\<close> after attempts on the vertices \<open>T\<close> that all
  took effect and did not fail the graph. The same ids are registered, with the same
  \<open>Loop\<close> and \<open>CanFail\<close>; the vertices in \<open>T\<close> are no longer Pending, the others kept
  their status; the graph's status and the parents are as before.
\<close>

definition evolves :: "string set \<Rightarrow> Dag \<Rightarrow> Dag \<Rightarrow> bool" where
  "evolves T d d1 =
     (Status_Dag d1 = Status_Dag d \<and> ConnectionsParents d1 = ConnectionsParents d \<and>
      keyed d1 \<and>
      (\<forall>k. case map_of (Vertices d) k of
             None \<Rightarrow> map_of (Vertices d1) k = None
           | Some v \<Rightarrow>
               (\<exists>v1. map_of (Vertices d1) k = Some v1 \<and> Loop v1 = Loop v \<and>
                     CanFail v1 = CanFail v \<and>
                     (if k \<in> T then Status v1 \<noteq> Pending else Status v1 = Status v))))"

section \<open>Sample graphs\<close>

definition vertex_A :: Vertex where
  "vertex_A = \<lparr>ID = ''A'', Status = Passed, Loop = 1, CanFail = True\<rparr>"

definition vertex_B :: Vertex where
  "vertex_B = \<lparr>ID = ''B'', Status = Pending, Loop = 1, CanFail = False\<rparr>"

text \<open>Two registered vertices and the edge from A to B; A has passed, B is pending.\<close>

definition graph_AB :: Dag where
  "graph_AB =
     \<lparr>Vertices = [(''A'', vertex_A), (''B'', vertex_B)],
      ConnectionsParents = fmupd ''B'' [''A''] fmempty,
      ConnectionsChildren = fmupd ''A'' [''B''] fmempty,
      Status_Dag = Pending, IsStarted = False\<rparr>"

text \<open>The vertex B alone, with an edge from the unregistered id Z.\<close>

definition graph_ZB :: Dag where
  "graph_ZB =
     \<lparr>Vertices = [(''B'', vertex_B)],
      ConnectionsParents = fmupd ''B'' [''Z''] fmempty,
      ConnectionsChildren = fmupd ''Z'' [''B''] fmempty,
      Status_Dag = Pending, IsStarted = False\<rparr>"

text \<open>The schedule in which every dispatched attempt passes, in dispatch order.\<close>

definition all_pass :: "nat \<Rightarrow> Vertex list \<Rightarrow> attempt list" where
  "all_pass n vs = map (\<lambda>k. (k, True)) (dispatched vs)"

text \<open>The schedule in which every attempt fails except those of vertex B.\<close>

definition only_B_passes :: "nat \<Rightarrow> Vertex list \<Rightarrow> attempt list" where
  "only_B_passes n vs = map (\<lambda>k. (k, k = ''B'')) (dispatched vs)"

text \<open>The graph \<open>graph_AB\<close> before anything has run: both vertices are Pending.\<close>

definition graph_AB_fresh :: Dag where
  "graph_AB_fresh = graph_AB\<lparr>Vertices := [(''A'', vertex_A\<lparr>Status := Pending\<rparr>), (''B'', vertex_B)]\<rparr>"

text \<open>A single Pending vertex with no edges whose \<open>Loop\<close> is \<open>2 ^ 31\<close>.\<close>

definition graph_Loop_2_31 :: Dag where
  "graph_Loop_2_31 =
     NewDag\<lparr>Vertices :=
       [(''A'', \<lparr>ID = ''A'', Status = Pending, Loop = 2147483648, CanFail = True\<rparr>)]\<rparr>"

text \<open>A single Pending vertex with no edges whose \<open>Loop\<close> is 0.\<close>

definition graph_Loop0 :: Dag where
  "graph_Loop0 =
     NewDag\<lparr>Vertices := [(''A'', \<lparr>ID = ''A'', Status = Pending, Loop = 0, CanFail = True\<rparr>)]\<rparr>"

section \<open>Basic facts\<close>

lemma status_distinct:
  "Pending \<noteq> Passed" "Pending \<noteq> Failed" "Passed \<noteq> Failed"
  "Passed \<noteq> Pending" "Failed \<noteq> Pending" "Failed \<noteq> Passed"
  by (simp_all add: Pending_def Passed_def Failed_def)

lemma IsCyclic_range_Nil: "IsCyclic_range cc from [] = Some False"
  by (subst IsCyclic_range.simps) simp

lemma IsCyclic_range_Cons:
  "IsCyclic_range cc from (child # rest) =
     (if child = from then Some True
      else Option.bind (IsCyclic_range cc from (neighbours cc child))
             (\<lambda>b. if b then Some True else IsCyclic_range cc from rest))"
  by (subst IsCyclic_range.simps) simp

lemma CanExecute_range_iff:
  "CanExecute_range d v ps \<longleftrightarrow>
     Status v = Pending \<and>
     (\<forall>parentID \<in> set ps.
        \<exists>parent. map_of (Vertices d) parentID = Some parent \<and> Status parent \<noteq> Pending)"
  by (induction ps) (auto split: option.splits)

lemma map_of_registered: "k \<in> fst ` set al \<Longrightarrow> \<exists>v. map_of al k = Some v"
  by (metis domD dom_map_of_conv_image_fst)

lemma SetPass_Failed:
  "Status_Dag d = Failed \<Longrightarrow> k \<in> fst ` set (Vertices d) \<Longrightarrow> SetPass d k = Inr d"
  by (auto simp: SetPass_def HasFailed_def dest!: map_of_registered)

lemma SetFail_Failed:
  "Status_Dag d = Failed \<Longrightarrow> k \<in> fst ` set (Vertices d) \<Longrightarrow> SetFail d k = Inr d"
  by (auto simp: SetFail_def HasFailed_def dest!: map_of_registered)

lemma run_attempts_Failed:
  "Status_Dag d = Failed \<Longrightarrow> fst ` set evs \<subseteq> fst ` set (Vertices d) \<Longrightarrow>
   run_attempts d evs = Inr d"
  by (induction evs) (auto simp: run_attempt_def SetPass_Failed SetFail_Failed)

lemma ExecuteVertices_finished: "HasFinished d \<Longrightarrow> ExecuteVertices sched n d = Some (Inr d)"
  by (subst ExecuteVertices.simps) simp

lemma SetPass_IsStarted: "SetPass d k = Inr d1 \<Longrightarrow> IsStarted d1 = IsStarted d"
  by (auto simp: SetPass_def split: option.splits if_splits)

lemma SetFail_IsStarted: "SetFail d k = Inr d1 \<Longrightarrow> IsStarted d1 = IsStarted d"
  by (auto simp: SetFail_def Let_def split: option.splits if_splits)

lemma run_attempts_IsStarted: "run_attempts d evs = Inr d1 \<Longrightarrow> IsStarted d1 = IsStarted d"
proof (induction evs arbitrary: d)
  case Nil
  then show ?case by simp
next
  case (Cons a evs)
  then show ?case
    by (auto simp: run_attempt_def split: sum.splits if_splits
        dest: SetPass_IsStarted SetFail_IsStarted)
qed

lemma ExecuteVertices_IsStarted_aux:
  assumes "ExecuteVertices sched n d = Some r"
  shows "\<forall>d1. r = Inr d1 \<longrightarrow> IsStarted d \<or> \<not> HasFinished d \<longrightarrow> IsStarted d1"
proof (rule ExecuteVertices.raw_induct [OF _ assms], intro allI impI)
  fix f sched n d r d1
  assume IH: "\<And>sched n d r. f sched n d = Some r \<Longrightarrow>
                \<forall>d1. r = Inr d1 \<longrightarrow> IsStarted d \<or> \<not> HasFinished d \<longrightarrow> IsStarted d1"
    and body: "(if HasFinished d then Some (Inr d)
      else case Next d of (d1, Inl e) \<Rightarrow> Some (Inl e)
           | (d1, Inr verticesToProcess) \<Rightarrow>
               let d2 = if verticesToProcess = []
                        then d1\<lparr>Status_Dag := Passed\<rparr> else d1
               in (case wait_group verticesToProcess of
                     Some e \<Rightarrow> Some (Inl e)
                   | None \<Rightarrow>
                       (case run_attempts d2 (sched n verticesToProcess) of
                          Inl e \<Rightarrow> Some (Inl e)
                        | Inr d3 \<Rightarrow> f sched (Suc n) d3))) = Some r"
    and r: "r = Inr d1" and s: "IsStarted d \<or> \<not> HasFinished d"
  show "IsStarted d1"
  proof (cases "HasFinished d")
    case True
    with body r s show ?thesis by simp
  next
    case False
    with body r obtain d0 vs d3 where
      n: "Next d = (d0, Inr vs)" and
      ra: "run_attempts (if vs = [] then d0\<lparr>Status_Dag := Passed\<rparr> else d0) (sched n vs) = Inr d3"
      and f: "f sched (Suc n) d3 = Some r"
      by (auto simp: Let_def split: prod.splits sum.splits option.splits if_splits)
    from n have "IsStarted d0"
      by (auto simp: Next_def Let_def split: if_splits)
    with run_attempts_IsStarted [OF ra] have "IsStarted d3"
      by (simp split: if_splits)
    with IH [OF f] r show ?thesis by simp
  qed
qed

lemma ExecuteVertices_IsStarted:
  "ExecuteVertices sched n d = Some (Inr d1) \<Longrightarrow> IsStarted d \<or> \<not> HasFinished d \<Longrightarrow>
   IsStarted d1"
  using ExecuteVertices_IsStarted_aux by blast

lemma AddEdge_Vertices:
  "AddEdge (d\<lparr>Vertices := vs\<rparr>) from to =
     map_option (map_sum id (\<lambda>d1. d1\<lparr>Vertices := vs\<rparr>)) (AddEdge d from to)"
  by (simp add: AddEdge_def IsCyclic_def split: option.splits bool.splits)

lemma CanExecute_unregistered:
  "parentID \<in> set (neighbours (ConnectionsParents d) (ID v)) \<Longrightarrow>
   map_of (Vertices d) parentID = None \<Longrightarrow> \<not> CanExecute d v"
  unfolding CanExecute_def CanExecute_range_iff by force

lemma run_attempt_registered:
  "run_attempt d a = Inr d1 \<Longrightarrow>
   ConnectionsParents d1 = ConnectionsParents d \<and>
   (map_of (Vertices d1) k = None \<longleftrightarrow> map_of (Vertices d) k = None)"
  by (auto simp: run_attempt_def SetPass_def SetFail_def Let_def update_conv'
      split: if_splits option.splits)

lemma Next_ready: "snd (Next d) = Inr vs \<Longrightarrow> v \<in> set vs \<Longrightarrow> CanExecute d v"
  by (auto simp: Next_def Let_def CanExecute_def CanExecute_range_iff split: if_splits)

subsection \<open>The cycle check on an acyclic graph\<close>

lemma edges_of_iff: "(k, x) \<in> edges_of m \<longleftrightarrow> x \<in> set (neighbours m k)"
  by (simp add: edges_of_def)

lemma edges_of_fmdom': "(k, x) \<in> edges_of m \<Longrightarrow> k \<in> fmdom' m"
  by (cases "fmlookup m k") (simp_all add: edges_of_iff neighbours_def fmdom'I)

lemma finite_edges_of: "finite (edges_of m)"
proof -
  have "edges_of m \<subseteq> (SIGMA k : fmdom' m. set (neighbours m k))"
    using edges_of_fmdom' by (auto simp: edges_of_iff)
  moreover have "finite (SIGMA k : fmdom' m. set (neighbours m k))"
    by (intro finite_SigmaI) simp_all
  ultimately show ?thesis
    by (rule finite_subset)
qed

lemma trancl_edges_of_step:
  "(c, x) \<in> (edges_of cc)\<^sup>+ \<longleftrightarrow>
     (\<exists>c1 \<in> set (neighbours cc c). c1 = x \<or> (c1, x) \<in> (edges_of cc)\<^sup>+)"
proof
  assume "(c, x) \<in> (edges_of cc)\<^sup>+"
  then show "\<exists>c1 \<in> set (neighbours cc c). c1 = x \<or> (c1, x) \<in> (edges_of cc)\<^sup>+"
    by (rule converse_tranclE) (auto simp: edges_of_iff)
next
  assume "\<exists>c1 \<in> set (neighbours cc c). c1 = x \<or> (c1, x) \<in> (edges_of cc)\<^sup>+"
  then obtain c1 where c1: "(c, c1) \<in> edges_of cc" "c1 = x \<or> (c1, x) \<in> (edges_of cc)\<^sup>+"
    by (auto simp: edges_of_iff)
  then show "(c, x) \<in> (edges_of cc)\<^sup>+"
    by (auto intro: trancl_into_trancl2)
qed

lemma IsCyclic_range_acyclic:
  assumes ac: "acyclic (edges_of cc)"
  shows "set cs \<subseteq> set (neighbours cc t) \<Longrightarrow>
         IsCyclic_range cc from cs =
           Some (\<exists>c \<in> set cs. c = from \<or> (c, from) \<in> (edges_of cc)\<^sup>+)"
proof -
  have wf: "wf ((edges_of cc)\<inverse>)"
    using finite_edges_of ac by (rule finite_acyclic_wf_converse)
  show "set cs \<subseteq> set (neighbours cc t) \<Longrightarrow>
         IsCyclic_range cc from cs =
           Some (\<exists>c \<in> set cs. c = from \<or> (c, from) \<in> (edges_of cc)\<^sup>+)"
    using wf
  proof (induction t arbitrary: cs rule: wf_induct_rule)
    case (less t)
    from less.prems show ?case
    proof (induction cs)
      case Nil
      show ?case by (simp add: IsCyclic_range_Nil)
    next
      case (Cons child rest)
      then have ch: "(child, t) \<in> (edges_of cc)\<inverse>" and rest: "set rest \<subseteq> set (neighbours cc t)"
        by (simp_all add: edges_of_iff)
      have inner: "IsCyclic_range cc from (neighbours cc child) =
                     Some ((child, from) \<in> (edges_of cc)\<^sup>+)"
        using less.IH [OF ch, of "neighbours cc child"]
        by (simp add: trancl_edges_of_step [of child])
      show ?case
        by (simp add: IsCyclic_range_Cons inner Cons.IH [OF rest])
    qed
  qed
qed

lemma IsCyclic_acyclic:
  "acyclic (child_rel d) \<Longrightarrow> IsCyclic d from to = Some ((to, from) \<in> (child_rel d)\<^sup>+)"
  unfolding IsCyclic_def child_rel_def
  using IsCyclic_range_acyclic [of "ConnectionsChildren d" "neighbours (ConnectionsChildren d) to" "to" "from"]
  by (simp add: trancl_edges_of_step [of to])

lemma child_rel_graph_AB: "child_rel graph_AB = {(''A'', ''B'')}"
  by (auto simp: child_rel_def edges_of_def graph_AB_def neighbours_def split: if_splits)

subsection \<open>The graph status along the scheduler's steps\<close>




lemma valid_schedule_Nil: "valid_schedule [] evs \<Longrightarrow> evs = []"
  by (simp add: valid_schedule_def dispatched_def)




subsection \<open>Attempts that take effect\<close>

lemma keyed_map_of: "keyed d \<Longrightarrow> (map_of (Vertices d) k = Some v) = ((k, v) \<in> set (Vertices d))"
  by (simp add: keyed_def)

lemma keyed_ID: "keyed d \<Longrightarrow> map_of (Vertices d) k = Some v \<Longrightarrow> ID v = k"
  by (auto simp: keyed_def dest: map_of_SomeD)

lemma set_update_subset: "set (AList.update k v al) \<subseteq> insert (k, v) (set al)"
  by (induction al) auto

lemma keyed_update:
  "keyed d \<Longrightarrow> ID v = k \<Longrightarrow> keyed (d\<lparr>Vertices := AList.update k v (Vertices d)\<rparr>)"
  using set_update_subset [of k v "Vertices d"]
  by (auto simp: keyed_def distinct_update)

lemma run_attempt_evolves:
  assumes k: "keyed d" and s: "Status_Dag d \<noteq> Failed"
    and v: "map_of (Vertices d) k = Some v" and c: "\<not> ok \<longrightarrow> CanFail v"
  shows "\<exists>d1. run_attempt d (k, ok) = Inr d1 \<and> evolves {k} d d1"
proof -
  define st where "st = (if ok then Passed else Failed)"
  define d1 where "d1 = d\<lparr>Vertices := AList.update k (v\<lparr>Status := st\<rparr>) (Vertices d)\<rparr>"
  have r: "run_attempt d (k, ok) = Inr d1"
    using s v c by (simp add: run_attempt_def SetPass_def SetFail_def HasFailed_def d1_def st_def)
  have id: "ID (v\<lparr>Status := st\<rparr>) = k"
    using keyed_ID [OF k v] by simp
  have k1: "keyed d1"
    unfolding d1_def using k id by (rule keyed_update)
  have np: "st \<noteq> Pending"
    by (simp add: st_def status_distinct)
  have "evolves {k} d d1"
    unfolding evolves_def
  proof (intro conjI allI)
    show "Status_Dag d1 = Status_Dag d" "ConnectionsParents d1 = ConnectionsParents d"
      by (simp_all add: d1_def)
    show "keyed d1" by (rule k1)
    fix k1
    show "case map_of (Vertices d) k1 of
             None \<Rightarrow> map_of (Vertices d1) k1 = None
           | Some v \<Rightarrow>
               (\<exists>v1. map_of (Vertices d1) k1 = Some v1 \<and> Loop v1 = Loop v \<and>
                     CanFail v1 = CanFail v \<and>
                     (if k1 \<in> {k} then Status v1 \<noteq> Pending else Status v1 = Status v))"
      using v np by (cases "k1 = k") (simp_all add: d1_def update_conv' split: option.splits)
  qed
  with r show ?thesis by blast
qed

lemma evolves_trans:
  assumes a: "evolves T1 d d1" and b: "evolves T2 d1 d2"
  shows "evolves (T1 \<union> T2) d d2"
  unfolding evolves_def
proof (intro conjI allI)
  show "Status_Dag d2 = Status_Dag d" "ConnectionsParents d2 = ConnectionsParents d" "keyed d2"
    using a b by (simp_all add: evolves_def)
  fix k
  from a have ak: "case map_of (Vertices d) k of
             None \<Rightarrow> map_of (Vertices d1) k = None
           | Some v \<Rightarrow>
               (\<exists>v1. map_of (Vertices d1) k = Some v1 \<and> Loop v1 = Loop v \<and>
                     CanFail v1 = CanFail v \<and>
                     (if k \<in> T1 then Status v1 \<noteq> Pending else Status v1 = Status v))"
    by (simp add: evolves_def)
  from b have bk: "case map_of (Vertices d1) k of
             None \<Rightarrow> map_of (Vertices d2) k = None
           | Some v \<Rightarrow>
               (\<exists>v1. map_of (Vertices d2) k = Some v1 \<and> Loop v1 = Loop v \<and>
                     CanFail v1 = CanFail v \<and>
                     (if k \<in> T2 then Status v1 \<noteq> Pending else Status v1 = Status v))"
    by (simp add: evolves_def)
  show "case map_of (Vertices d) k of
             None \<Rightarrow> map_of (Vertices d2) k = None
           | Some v \<Rightarrow>
               (\<exists>v1. map_of (Vertices d2) k = Some v1 \<and> Loop v1 = Loop v \<and>
                     CanFail v1 = CanFail v \<and>
                     (if k \<in> T1 \<union> T2 then Status v1 \<noteq> Pending else Status v1 = Status v))"
  proof (cases "map_of (Vertices d) k")
    case None
    with ak bk show ?thesis by simp
  next
    case (Some v)
    with ak obtain v1 where v1: "map_of (Vertices d1) k = Some v1" "Loop v1 = Loop v"
      "CanFail v1 = CanFail v" "if k \<in> T1 then Status v1 \<noteq> Pending else Status v1 = Status v"
      by auto
    with bk obtain v2 where v2: "map_of (Vertices d2) k = Some v2" "Loop v2 = Loop v1"
      "CanFail v2 = CanFail v1" "if k \<in> T2 then Status v2 \<noteq> Pending else Status v2 = Status v1"
      by auto
    from v1 v2 Some show ?thesis
      by (auto split: if_splits)
  qed
qed

lemma evolves_refl: "keyed d \<Longrightarrow> evolves {} d d"
  by (auto simp: evolves_def split: option.splits)

lemma evolves_lookup:
  "evolves T d d1 \<Longrightarrow> map_of (Vertices d1) k = Some v1 \<Longrightarrow>
   \<exists>v. map_of (Vertices d) k = Some v \<and> Loop v1 = Loop v \<and> CanFail v1 = CanFail v \<and>
       (if k \<in> T then Status v1 \<noteq> Pending else Status v1 = Status v)"
proof -
  assume e: "evolves T d d1" and l: "map_of (Vertices d1) k = Some v1"
  from e have "case map_of (Vertices d) k of
             None \<Rightarrow> map_of (Vertices d1) k = None
           | Some v \<Rightarrow>
               (\<exists>v1. map_of (Vertices d1) k = Some v1 \<and> Loop v1 = Loop v \<and>
                     CanFail v1 = CanFail v \<and>
                     (if k \<in> T then Status v1 \<noteq> Pending else Status v1 = Status v))"
    by (simp add: evolves_def)
  with l show ?thesis
    by (cases "map_of (Vertices d) k") auto
qed

lemma run_attempts_evolves:
  "keyed d \<Longrightarrow> Status_Dag d \<noteq> Failed \<Longrightarrow>
   \<forall>(k, ok) \<in> set evs. \<exists>v. map_of (Vertices d) k = Some v \<and> (\<not> ok \<longrightarrow> CanFail v) \<Longrightarrow>
   \<exists>d1. run_attempts d evs = Inr d1 \<and> evolves (fst ` set evs) d d1"
proof (induction evs arbitrary: d)
  case Nil
  then show ?case by (simp add: evolves_refl)
next
  case (Cons a evs)
  obtain k ok where a: "a = (k, ok)" by (cases a)
  with Cons.prems(3) obtain v where v: "map_of (Vertices d) k = Some v" "\<not> ok \<longrightarrow> CanFail v"
    by auto
  from run_attempt_evolves [OF Cons.prems(1,2) v] obtain d1 where
    d1: "run_attempt d (k, ok) = Inr d1" "evolves {k} d d1"
    by blast
  from d1(2) have k1: "keyed d1" and s1: "Status_Dag d1 \<noteq> Failed"
    using Cons.prems(2) by (simp_all add: evolves_def)
  have "\<forall>(k, ok) \<in> set evs. \<exists>v. map_of (Vertices d1) k = Some v \<and> (\<not> ok \<longrightarrow> CanFail v)"
  proof (clarify)
    fix k2 ok2
    assume "(k2, ok2) \<in> set evs"
    with Cons.prems(3) obtain v2 where v2: "map_of (Vertices d) k2 = Some v2" "\<not> ok2 \<longrightarrow> CanFail v2"
      by fastforce
    from d1(2) v2(1) obtain v3 where "map_of (Vertices d1) k2 = Some v3" "CanFail v3 = CanFail v2"
      by (fastforce simp: evolves_def split: option.splits dest: spec [of _ k2])
    with v2(2) show "\<exists>v. map_of (Vertices d1) k2 = Some v \<and> (\<not> ok2 \<longrightarrow> CanFail v)"
      by simp
  qed
  from Cons.IH [OF k1 s1 this] obtain d2 where
    d2: "run_attempts d1 evs = Inr d2" "evolves (fst ` set evs) d1 d2"
    by blast
  from evolves_trans [OF d1(2) d2(2)] d1(1) d2(1) a show ?case
    by simp
qed

lemma CanExecute_IsStarted [simp]: "CanExecute (d\<lparr>IsStarted := b\<rparr>) = CanExecute d"
  by (rule ext) (simp add: CanExecute_def CanExecute_range_iff)

lemma Next_unfailed:
  "\<not> HasFailed d \<Longrightarrow>
   Next d = (d\<lparr>IsStarted := True\<rparr>, Inr (filter (CanExecute d) (map snd (Vertices d))))"
  by (simp add: Next_def Let_def HasFailed_def)

subsection \<open>The wait group of a wave\<close>

lemma dispatched_Cons:
  "dispatched (v # vs) = replicate (nat (Loop v)) (ID v) @ dispatched vs"
  by (simp add: dispatched_def)

lemma length_dispatched:
  "\<forall>v \<in> set vs. 0 \<le> Loop v \<Longrightarrow> int (length (dispatched vs)) = sum_list (map Loop vs)"
  by (induction vs) (simp_all add: dispatched_Cons, simp add: dispatched_def)

lemma sint_counter: "0 \<le> x \<Longrightarrow> x < 2 ^ 31 \<Longrightarrow> sint (word_of_int x :: 32 word) = x"
  by (simp add: sint_sbintrunc' signed_take_bit_int_eq_self)

lemma sum_list_nonneg_Loop: "\<forall>v \<in> set vs. 0 \<le> Loop v \<Longrightarrow> 0 \<le> sum_list (map Loop vs)"
  by (induction vs) simp_all

lemma wg_Add_range_counts:
  "\<forall>v \<in> set vs. 0 \<le> Loop v \<Longrightarrow> 0 \<le> x \<Longrightarrow> x + sum_list (map Loop vs) < 2 ^ 31 \<Longrightarrow>
   wg_Add_range (word_of_int x) vs = Some (word_of_int (x + sum_list (map Loop vs)))"
proof (induction vs arbitrary: x)
  case Nil
  then show ?case by simp
next
  case (Cons v vs)
  from Cons.prems have v: "0 \<le> Loop v" and r: "\<forall>v \<in> set vs. 0 \<le> Loop v"
    by simp_all
  from sum_list_nonneg_Loop [OF r] Cons.prems(3) v Cons.prems(2)
  have b: "0 \<le> x + Loop v" "x + Loop v < 2 ^ 31"
    by simp_all
  have s: "sint (word_of_int (x + Loop v) :: 32 word) = x + Loop v"
    using b by (rule sint_counter)
  from Cons.prems(3) have "(x + Loop v) + sum_list (map Loop vs) < 2 ^ 31"
    by (simp add: add.assoc)
  from Cons.IH [OF r b(1) this] s b(1) show ?case
    by (simp add: Let_def add.assoc)
qed

text \<open>The wave goes through when its \<open>Loop\<close>s are not negative and sum to less than
  \<open>2 ^ 31\<close>.\<close>

lemma wait_group_counts:
  assumes "\<forall>v \<in> set vs. 0 \<le> Loop v" and "sum_list (map Loop vs) < 2 ^ 31"
  shows "wait_group vs = None"
proof -
  from wg_Add_range_counts [OF assms(1), of 0] assms(2)
  have a: "wg_Add_range 0 vs = Some (word_of_int (sum_list (map Loop vs)))"
    by simp
  have "sint (word_of_int (sum_list (map Loop vs)) :: 32 word) = sum_list (map Loop vs)"
    using sum_list_nonneg_Loop [OF assms(1)] assms(2) by (rule sint_counter)
  with a length_dispatched [OF assms(1)] show ?thesis
    by (simp add: wait_group_def)
qed

lemma wait_group_Nil: "wait_group [] = None"
  by (simp add: wait_group_def dispatched_def)

text \<open>A \<open>Loop\<close> of \<open>2 ^ 31\<close> is a negative counter, and the first wave panics.\<close>

lemma run_Loop_2_31_panics:
  "ExecuteVertices sched n graph_Loop_2_31 = Some (Inl NegativeWaitGroup)"
proof -
  have u: "\<not> HasFinished graph_Loop_2_31" "\<not> HasFailed graph_Loop_2_31"
    by (simp_all add: HasFinished_def HasFailed_def HasSucceeded_def graph_Loop_2_31_def
        NewDag_def status_distinct)
  have w: "wait_group [\<lparr>ID = ''A'', Status = Pending, Loop = 2147483648, CanFail = True\<rparr>] =
             Some NegativeWaitGroup"
    by (simp add: wait_group_def)
  have n: "Next graph_Loop_2_31 =
             (graph_Loop_2_31\<lparr>IsStarted := True\<rparr>,
              Inr [\<lparr>ID = ''A'', Status = Pending, Loop = 2147483648, CanFail = True\<rparr>])"
    by (simp add: Next_unfailed [OF u(2)])
       (simp add: graph_Loop_2_31_def NewDag_def CanExecute_def neighbours_def)
  show ?thesis
    by (subst ExecuteVertices.simps) (simp add: u(1) n w)
qed

lemma sum_list_filter_Loop:
  "\<forall>v \<in> set vs. 0 \<le> Loop v \<Longrightarrow> sum_list (map Loop (filter P vs)) \<le> sum_list (map Loop vs)"
  by (induction vs) auto

text \<open>No attempt changes the \<open>Loop\<close> of a vertex or the order of the vertices.\<close>

lemma update_Status_Loops:
  "map_of al k = Some v \<Longrightarrow>
   map (Loop \<circ> snd) (AList.update k (v\<lparr>Status := st\<rparr>) al) = map (Loop \<circ> snd) al"
  by (induction al) (auto split: if_splits)

lemma run_attempt_Loops:
  "run_attempt d a = Inr d1 \<Longrightarrow> map (Loop \<circ> snd) (Vertices d1) = map (Loop \<circ> snd) (Vertices d)"
  by (auto simp: run_attempt_def SetPass_def SetFail_def Let_def update_Status_Loops
      split: if_splits option.splits)

lemma run_attempts_Loops:
  "run_attempts d evs = Inr d1 \<Longrightarrow> map (Loop \<circ> snd) (Vertices d1) = map (Loop \<circ> snd) (Vertices d)"
proof (induction evs arbitrary: d)
  case Nil
  then show ?case by simp
next
  case (Cons a evs)
  then obtain d2 where a: "run_attempt d a = Inr d2" and r: "run_attempts d2 evs = Inr d1"
    by (auto split: sum.splits)
  from Cons.IH [OF r] run_attempt_Loops [OF a] show ?case
    by (rule trans)
qed

lemma ExecuteVertices_empty_wave:
  assumes "\<not> HasFinished d" and "filter (CanExecute d) (map snd (Vertices d)) = []"
    and "sched n [] = []"
  shows "ExecuteVertices sched n d = Some (Inr (d\<lparr>IsStarted := True, Status_Dag := Passed\<rparr>))"
proof -
  have f: "HasFinished (d\<lparr>IsStarted := True, Status_Dag := Passed\<rparr>)"
    by (simp add: HasFinished_def HasSucceeded_def)
  from assms(1) have "\<not> HasFailed d" by (simp add: HasFinished_def)
  with assms show ?thesis
    by (subst ExecuteVertices.simps)
       (simp add: Next_unfailed wait_group_Nil ExecuteVertices_finished [OF f])
qed

lemma ExecuteVertices_wave:
  assumes "\<not> HasFinished d" and "filter (CanExecute d) (map snd (Vertices d)) = vs"
    and "vs \<noteq> []" and "wait_group vs = None"
    and "run_attempts (d\<lparr>IsStarted := True\<rparr>) (sched n vs) = Inr d3"
  shows "ExecuteVertices sched n d = ExecuteVertices sched (Suc n) d3"
proof -
  from assms(1) have "\<not> HasFailed d" by (simp add: HasFinished_def)
  with assms show ?thesis
    by (subst ExecuteVertices.simps) (simp add: Next_unfailed)
qed

lemma set_dispatched: "\<forall>v \<in> set vs. 1 \<le> Loop v \<Longrightarrow> set (dispatched vs) = ID ` set vs"
  by (induction vs) (auto simp: dispatched_def)

lemma valid_schedule_targets:
  "valid_schedule vs evs \<Longrightarrow> \<forall>v \<in> set vs. 1 \<le> Loop v \<Longrightarrow> fst ` set evs = ID ` set vs"
  using mset_eq_setD [of "map fst evs" "dispatched vs"] set_dispatched [of vs]
  by (simp add: valid_schedule_def)

lemma finite_pending: "finite (pending d)"
proof -
  have "pending d \<subseteq> fst ` set (Vertices d)"
    by (auto simp: pending_def dest!: map_of_SomeD intro: rev_image_eqI)
  then show ?thesis
    by (rule finite_subset) simp
qed

lemma evolves_pending: "evolves T d d1 \<Longrightarrow> pending d1 \<subseteq> pending d - T"
proof
  fix k
  assume e: "evolves T d d1" and "k \<in> pending d1"
  then obtain v1 where v1: "map_of (Vertices d1) k = Some v1" "Status v1 = Pending"
    by (auto simp: pending_def)
  from evolves_lookup [OF e v1(1)] v1(2) show "k \<in> pending d - T"
    by (auto simp: pending_def split: if_splits)
qed

lemma evolves_card_pending:
  assumes "evolves T d d1" and "k \<in> T" and "k \<in> pending d"
  shows "card (pending d1) < card (pending d)"
proof -
  from evolves_pending [OF assms(1)] assms(2,3) have "pending d1 \<subset> pending d"
    by auto
  then show ?thesis
    by (simp add: finite_pending psubset_card_mono)
qed

lemma evolves_IsStarted [simp]: "evolves T (d\<lparr>IsStarted := b\<rparr>) d1 = evolves T d d1"
  by (simp add: evolves_def)

lemma keyed_IsStarted [simp]: "keyed (d\<lparr>IsStarted := b\<rparr>) = keyed d"
  by (simp add: keyed_def)

lemma ready_registered:
  assumes "keyed d" and "v \<in> set (filter (CanExecute d) (map snd (Vertices d)))"
  shows "map_of (Vertices d) (ID v) = Some v \<and> Status v = Pending"
proof -
  from assms(2) obtain k where kv: "(k, v) \<in> set (Vertices d)" and c: "CanExecute d v"
    by auto
  from kv assms(1) have "ID v = k" by (auto simp: keyed_def)
  with kv assms(1) have "map_of (Vertices d) (ID v) = Some v"
    by (simp add: keyed_map_of)
  moreover from c have "Status v = Pending"
    by (simp add: CanExecute_def CanExecute_range_iff)
  ultimately show ?thesis by simp
qed

text \<open>One wave with a non-empty ready set: every attempt takes effect and some Pending
  vertex is resolved.\<close>

lemma wave_progress:
  assumes k: "keyed d" and u: "\<not> HasFinished d"
    and pos: "\<forall>(k, v) \<in> set (Vertices d). 1 \<le> Loop v"
    and sum: "sum_list (map (Loop \<circ> snd) (Vertices d)) < 2 ^ 31"
    and vs: "filter (CanExecute d) (map snd (Vertices d)) = vs" and ne: "vs \<noteq> []"
    and val: "valid_schedule vs evs"
    and nf: "\<forall>k v. (k, False) \<in> set evs \<longrightarrow> map_of (Vertices d) k = Some v \<longrightarrow> CanFail v"
  shows "wait_group vs = None \<and>
         (\<exists>d3 T. run_attempts (d\<lparr>IsStarted := True\<rparr>) evs = Inr d3 \<and> evolves T d d3 \<and>
                 card (pending d3) < card (pending d))"
proof -
  have reg: "map_of (Vertices d) (ID v) = Some v \<and> Status v = Pending" if "v \<in> set vs" for v
    using ready_registered [OF k] that vs by simp
  have loop: "\<forall>v \<in> set vs. 1 \<le> Loop v"
  proof
    fix v assume "v \<in> set vs"
    from reg [OF this] have "(ID v, v) \<in> set (Vertices d)" by (auto dest: map_of_SomeD)
    with pos show "1 \<le> Loop v" by auto
  qed
  have all: "\<forall>v \<in> set (map snd (Vertices d)). 0 \<le> Loop v"
    using pos by fastforce
  from sum_list_filter_Loop [OF all, of "CanExecute d"] vs sum
  have "sum_list (map Loop vs) < 2 ^ 31"
    by simp
  moreover from loop have "\<forall>v \<in> set vs. 0 \<le> Loop v"
    by fastforce
  ultimately have l: "wait_group vs = None"
    by (simp add: wait_group_counts)
  have tg: "fst ` set evs = ID ` set vs"
    using val loop by (rule valid_schedule_targets)
  have s: "Status_Dag (d\<lparr>IsStarted := True\<rparr>) \<noteq> Failed"
    using u by (simp add: HasFinished_def HasFailed_def)
  have ok: "\<forall>(k, ok) \<in> set evs.
              \<exists>v. map_of (Vertices (d\<lparr>IsStarted := True\<rparr>)) k = Some v \<and> (\<not> ok \<longrightarrow> CanFail v)"
  proof clarify
    fix k1 ok1 assume m: "(k1, ok1) \<in> set evs"
    then have "k1 \<in> fst ` set evs" by force
    with tg obtain v where "v \<in> set vs" "ID v = k1" by auto
    with reg have v: "map_of (Vertices d) k1 = Some v" by auto
    with nf m have "\<not> ok1 \<longrightarrow> CanFail v" by auto
    with v show "\<exists>v. map_of (Vertices (d\<lparr>IsStarted := True\<rparr>)) k1 = Some v \<and> (\<not> ok1 \<longrightarrow> CanFail v)"
      by simp
  qed
  from k have "keyed (d\<lparr>IsStarted := True\<rparr>)" by simp
  from run_attempts_evolves [OF this s ok] obtain d3 where
    d3: "run_attempts (d\<lparr>IsStarted := True\<rparr>) evs = Inr d3" "evolves (fst ` set evs) d d3"
    by auto
  from ne obtain v where v: "v \<in> set vs" by (cases vs) auto
  with tg have "ID v \<in> fst ` set evs" by auto
  moreover from reg [OF v] have "ID v \<in> pending d" by (auto simp: pending_def)
  ultimately have "card (pending d3) < card (pending d)"
    using evolves_card_pending [OF d3(2)] by blast
  with l d3 show ?thesis by blast
qed

subsection \<open>Termination of the run\<close>

lemma parent_rel_iff: "(p, c) \<in> parent_rel d \<longleftrightarrow> p \<in> set (neighbours (ConnectionsParents d) c)"
  by (simp add: parent_rel_def edges_of_iff)

lemma wf_parent_rel: "acyclic (parent_rel d) \<Longrightarrow> wf (parent_rel d)"
  by (rule finite_acyclic_wf) (simp_all add: parent_rel_def finite_edges_of)

lemma no_ready_no_pending:
  assumes k: "keyed d" and ac: "acyclic (parent_rel d)"
    and reg: "\<forall>(p, c) \<in> parent_rel d. p \<in> fst ` set (Vertices d)"
    and empty: "filter (CanExecute d) (map snd (Vertices d)) = []"
  shows "pending d = {}"
proof (rule ccontr)
  assume "pending d \<noteq> {}"
  then obtain x where "x \<in> pending d" by auto
  with wf_parent_rel [OF ac] obtain z where
    z: "z \<in> pending d" and m: "\<And>y. (y, z) \<in> parent_rel d \<Longrightarrow> y \<notin> pending d"
    by (rule wfE_min) blast
  from z obtain vz where vz: "map_of (Vertices d) z = Some vz" "Status vz = Pending"
    by (auto simp: pending_def)
  have id: "ID vz = z" using k vz(1) by (rule keyed_ID)
  have "\<exists>parent. map_of (Vertices d) parentID = Some parent \<and> Status parent \<noteq> Pending"
    if "parentID \<in> set (neighbours (ConnectionsParents d) (ID vz))" for parentID
  proof -
    from that id have pr: "(parentID, z) \<in> parent_rel d" by (simp add: parent_rel_iff)
    with reg have "parentID \<in> fst ` set (Vertices d)" by auto
    from map_of_registered [OF this] obtain parent where
      p: "map_of (Vertices d) parentID = Some parent"
      by blast
    from m [OF pr] p have "Status parent \<noteq> Pending" by (auto simp: pending_def)
    with p show ?thesis by simp
  qed
  with vz(2) have "CanExecute d vz"
    by (auto simp: CanExecute_def CanExecute_range_iff)
  moreover from vz(1) have "vz \<in> set (map snd (Vertices d))"
    by (force dest: map_of_SomeD)
  ultimately have "vz \<in> set (filter (CanExecute d) (map snd (Vertices d)))"
    by simp
  with empty show False by simp
qed

lemma evolves_keys: "evolves T d d1 \<Longrightarrow> fst ` set (Vertices d1) = fst ` set (Vertices d)"
proof -
  assume e: "evolves T d d1"
  have "dom (map_of (Vertices d1)) = dom (map_of (Vertices d))"
  proof (rule set_eqI)
    fix k
    from e have "case map_of (Vertices d) k of
             None \<Rightarrow> map_of (Vertices d1) k = None
           | Some v \<Rightarrow>
               (\<exists>v1. map_of (Vertices d1) k = Some v1 \<and> Loop v1 = Loop v \<and>
                     CanFail v1 = CanFail v \<and>
                     (if k \<in> T then Status v1 \<noteq> Pending else Status v1 = Status v))"
      by (simp add: evolves_def)
    then show "k \<in> dom (map_of (Vertices d1)) \<longleftrightarrow> k \<in> dom (map_of (Vertices d))"
      by (cases "map_of (Vertices d) k") auto
  qed
  then show ?thesis
    by (simp add: dom_map_of_conv_image_fst)
qed

lemma run_terminates_aux:
  assumes val: "\<forall>n vs. valid_schedule vs (sched n vs)"
  shows "keyed d \<Longrightarrow> \<not> HasFinished d \<Longrightarrow> \<forall>(k, v) \<in> set (Vertices d). 1 \<le> Loop v \<Longrightarrow>
         sum_list (map (Loop \<circ> snd) (Vertices d)) < 2 ^ 31 \<Longrightarrow>
         \<forall>n vs k v. (k, False) \<in> set (sched n vs) \<longrightarrow> map_of (Vertices d) k = Some v \<longrightarrow> CanFail v \<Longrightarrow>
         \<exists>d1. ExecuteVertices sched n d = Some (Inr d1) \<and> Status_Dag d1 = Passed \<and> keyed d1 \<and>
              ConnectionsParents d1 = ConnectionsParents d \<and>
              fst ` set (Vertices d1) = fst ` set (Vertices d) \<and>
              filter (CanExecute d1) (map snd (Vertices d1)) = []"
proof (induction "card (pending d)" arbitrary: d n rule: less_induct)
  case less
  define vs where "vs = filter (CanExecute d) (map snd (Vertices d))"
  show ?case
  proof (cases "vs = []")
    case True
    from val have "sched n [] = []" by (simp add: valid_schedule_Nil)
    with True have r: "ExecuteVertices sched n d =
        Some (Inr (d\<lparr>IsStarted := True, Status_Dag := Passed\<rparr>))"
      using less.prems(2) by (simp add: ExecuteVertices_empty_wave vs_def)
    have c: "CanExecute (d\<lparr>IsStarted := True, Status_Dag := Passed\<rparr>) = CanExecute d"
      by (rule ext) (simp add: CanExecute_def CanExecute_range_iff)
    from r True less.prems(1) show ?thesis
      by (simp add: c vs_def keyed_def)
  next
    case False
    from val have v: "valid_schedule vs (sched n vs)" by simp
    from less.prems(5)
    have nf: "\<forall>k v. (k, False) \<in> set (sched n vs) \<longrightarrow> map_of (Vertices d) k = Some v \<longrightarrow> CanFail v"
      by blast
    from wave_progress [OF less.prems(1,2,3,4) vs_def [symmetric] False v nf]
    obtain d3 T where l: "wait_group vs = None"
      and r: "run_attempts (d\<lparr>IsStarted := True\<rparr>) (sched n vs) = Inr d3"
      and e: "evolves T d d3" and c: "card (pending d3) < card (pending d)"
      by blast
    have step: "ExecuteVertices sched n d = ExecuteVertices sched (Suc n) d3"
      using less.prems(2) vs_def [symmetric] False l r by (rule ExecuteVertices_wave)
    from e have k3: "keyed d3" and s3: "Status_Dag d3 = Status_Dag d"
      and p3: "ConnectionsParents d3 = ConnectionsParents d"
      by (simp_all add: evolves_def)
    from s3 less.prems(2) have u3: "\<not> HasFinished d3"
      by (simp add: HasFinished_def HasFailed_def HasSucceeded_def)
    have pos3: "\<forall>(k, v) \<in> set (Vertices d3). 1 \<le> Loop v"
    proof clarify
      fix k v1 assume "(k, v1) \<in> set (Vertices d3)"
      with k3 have "map_of (Vertices d3) k = Some v1" by (simp add: keyed_map_of)
      from evolves_lookup [OF e this] obtain v where
        "map_of (Vertices d) k = Some v" "Loop v1 = Loop v" by blast
      with less.prems(3) show "1 \<le> Loop v1" by (auto dest: map_of_SomeD)
    qed
    from run_attempts_Loops [OF r] less.prems(4)
    have sum3: "sum_list (map (Loop \<circ> snd) (Vertices d3)) < 2 ^ 31"
      by simp
    have nf3: "\<forall>n vs k v. (k, False) \<in> set (sched n vs) \<longrightarrow> map_of (Vertices d3) k = Some v \<longrightarrow> CanFail v"
    proof (intro allI impI)
      fix n vs k v1 assume a: "(k, False) \<in> set (sched n vs)" "map_of (Vertices d3) k = Some v1"
      from evolves_lookup [OF e a(2)] obtain v where
        "map_of (Vertices d) k = Some v" "CanFail v1 = CanFail v" by blast
      with less.prems(5) a(1) show "CanFail v1" by blast
    qed
    from less.hyps [OF c k3 u3 pos3 sum3 nf3, of "Suc n"] obtain d1 where
      "ExecuteVertices sched (Suc n) d3 = Some (Inr d1)" "Status_Dag d1 = Passed" "keyed d1"
      "ConnectionsParents d1 = ConnectionsParents d3"
      "fst ` set (Vertices d1) = fst ` set (Vertices d3)"
      "filter (CanExecute d1) (map snd (Vertices d1)) = []"
      by blast
    with step p3 evolves_keys [OF e] show ?thesis
      by simp
  qed
qed

lemma parent_rel_graph_AB_fresh: "parent_rel graph_AB_fresh = {(''A'', ''B'')}"
  by (auto simp: parent_rel_iff graph_AB_fresh_def graph_AB_def neighbours_def split: if_splits)

lemma valid_schedule_only_B_passes: "valid_schedule vs (only_B_passes n vs)"
  by (simp add: valid_schedule_def only_B_passes_def o_def)

lemma valid_schedule_all_pass: "valid_schedule vs (all_pass n vs)"
  by (simp add: valid_schedule_def all_pass_def o_def)

lemma run_Loop0_aux:
  assumes "ExecuteVertices sched n d = Some r"
  shows "sched = all_pass \<longrightarrow> Vertices d = Vertices graph_Loop0 \<longrightarrow>
         ConnectionsParents d = fmempty \<longrightarrow> Status_Dag d = Pending \<longrightarrow> False"
proof (rule ExecuteVertices.raw_induct [OF _ assms], intro impI)
  fix f sched n d r
  assume IH: "\<And>sched n d r. f sched n d = Some r \<Longrightarrow>
                sched = all_pass \<longrightarrow> Vertices d = Vertices graph_Loop0 \<longrightarrow>
                ConnectionsParents d = fmempty \<longrightarrow> Status_Dag d = Pending \<longrightarrow> False"
    and body: "(if HasFinished d then Some (Inr d)
      else case Next d of (d1, Inl e) \<Rightarrow> Some (Inl e)
           | (d1, Inr verticesToProcess) \<Rightarrow>
               let d2 = if verticesToProcess = []
                        then d1\<lparr>Status_Dag := Passed\<rparr> else d1
               in (case wait_group verticesToProcess of
                     Some e \<Rightarrow> Some (Inl e)
                   | None \<Rightarrow>
                       (case run_attempts d2 (sched n verticesToProcess) of
                          Inl e \<Rightarrow> Some (Inl e)
                        | Inr d3 \<Rightarrow> f sched (Suc n) d3))) = Some r"
    and s: "sched = all_pass" and v: "Vertices d = Vertices graph_Loop0"
    and p: "ConnectionsParents d = fmempty" and st: "Status_Dag d = Pending"
  have u: "\<not> HasFinished d" "\<not> HasFailed d"
    using st by (simp_all add: HasFinished_def HasFailed_def HasSucceeded_def status_distinct)
  have n: "Next d = (d\<lparr>IsStarted := True\<rparr>,
             Inr [\<lparr>ID = ''A'', Status = Pending, Loop = 0, CanFail = True\<rparr>])"
    using u(2) v p
    by (simp add: Next_unfailed graph_Loop0_def CanExecute_def neighbours_def)
  have e: "all_pass n [\<lparr>ID = ''A'', Status = Pending, Loop = 0, CanFail = True\<rparr>] = []"
    by (simp add: all_pass_def dispatched_def)
  have w: "wait_group [\<lparr>ID = ''A'', Status = Pending, Loop = 0, CanFail = True\<rparr>] = None"
    by (simp add: wait_group_def dispatched_def)
  from body u(1) n e s w have "f all_pass (Suc n) (d\<lparr>IsStarted := True\<rparr>) = Some r"
    by simp
  from IH [OF this] v p st show False
    by simp
qed

subsection \<open>Graphs built by the construction calls\<close>

lemma keyed_NewDag: "keyed NewDag"
  by (simp add: keyed_def NewDag_def)

lemma AddVertex_keyed: "keyed d \<Longrightarrow> AddVertex d v = Inr d1 \<Longrightarrow> keyed d1"
  by (auto simp: AddVertex_def keyed_update split: if_splits)

lemma AddVertex_Status_Dag: "AddVertex d v = Inr d1 \<Longrightarrow> Status_Dag d1 = Status_Dag d"
  by (auto simp: AddVertex_def split: if_splits)

lemma AddEdge_Inr:
  "AddEdge d from to = Some (Inr d1) \<Longrightarrow>
   d1 = d\<lparr>ConnectionsParents :=
            fmupd to (neighbours (ConnectionsParents d) to @ [from]) (ConnectionsParents d),
          ConnectionsChildren :=
            fmupd from (neighbours (ConnectionsChildren d) from @ [to]) (ConnectionsChildren d)\<rparr>"
  by (auto simp: AddEdge_def split: if_splits option.splits bool.splits)

lemma AddEdge_keyed: "keyed d \<Longrightarrow> AddEdge d from to = Some (Inr d1) \<Longrightarrow> keyed d1"
  by (auto simp: keyed_def dest!: AddEdge_Inr)

lemma AddEdge_Status_Dag: "AddEdge d from to = Some (Inr d1) \<Longrightarrow> Status_Dag d1 = Status_Dag d"
  by (auto dest!: AddEdge_Inr)

lemma edges_of_append: "edges_of (fmupd k (neighbours m k @ [x]) m) = insert (k, x) (edges_of m)"
proof (rule set_eqI, clarify)
  fix a b
  show "(a, b) \<in> edges_of (fmupd k (neighbours m k @ [x]) m) \<longleftrightarrow>
        (a, b) \<in> insert (k, x) (edges_of m)"
    by (cases "a = k") (auto simp: edges_of_iff neighbours_def)
qed

text \<open>\<open>AddEdge\<close> stores the edge in both maps, so the two relations stay equal.\<close>

lemma AddEdge_relations:
  "AddEdge d from to = Some (Inr d1) \<Longrightarrow>
   child_rel d1 = insert (from, to) (child_rel d) \<and>
   parent_rel d1 = insert (from, to) (parent_rel d)"
  by (auto simp: child_rel_def parent_rel_def edges_of_append dest!: AddEdge_Inr)

text \<open>Every returning run of \<open>ExecuteVertices\<close> is an execution of the transition system.\<close>

lemma run_attempts_steps:
  "run_attempts d evs = Inr d1 \<Longrightarrow> sched_step\<^sup>*\<^sup>* (d, evs) (d1, [])"
proof (induction evs arbitrary: d)
  case Nil
  then show ?case by simp
next
  case (Cons a evs)
  then obtain d2 where a: "run_attempt d a = Inr d2" and r: "run_attempts d2 evs = Inr d1"
    by (auto split: sum.splits)
  from a have "sched_step (d, a # evs) (d2, evs)" by (rule sched_step.attempt)
  then show ?case
    using Cons.IH [OF r] by (rule converse_rtranclp_into_rtranclp)
qed

lemma Next_ready_set:
  "Next d = (d0, Inr vs) \<Longrightarrow> set vs \<subseteq> snd ` set (Vertices d) \<and> Vertices d0 = Vertices d"
  by (auto simp: Next_def Let_def split: if_splits)

lemma ExecuteVertices_steps_aux:
  assumes "ExecuteVertices sched n d = Some r"
  shows "\<forall>d1. r = Inr d1 \<longrightarrow> (\<forall>n vs. valid_schedule vs (sched n vs)) \<longrightarrow>
              (\<forall>x \<in> set (map (Loop \<circ> snd) (Vertices d)). 0 \<le> x) \<longrightarrow>
              sched_step\<^sup>*\<^sup>* (d, []) (d1, [])"
proof (rule ExecuteVertices.raw_induct [OF _ assms], intro allI impI)
  fix f sched n d r d1
  assume IH: "\<And>sched n d r. f sched n d = Some r \<Longrightarrow>
                \<forall>d1. r = Inr d1 \<longrightarrow> (\<forall>n vs. valid_schedule vs (sched n vs)) \<longrightarrow>
                     (\<forall>x \<in> set (map (Loop \<circ> snd) (Vertices d)). 0 \<le> x) \<longrightarrow>
                     sched_step\<^sup>*\<^sup>* (d, []) (d1, [])"
    and body: "(if HasFinished d then Some (Inr d)
      else case Next d of (d1, Inl e) \<Rightarrow> Some (Inl e)
           | (d1, Inr verticesToProcess) \<Rightarrow>
               let d2 = if verticesToProcess = []
                        then d1\<lparr>Status_Dag := Passed\<rparr> else d1
               in (case wait_group verticesToProcess of
                     Some e \<Rightarrow> Some (Inl e)
                   | None \<Rightarrow>
                       (case run_attempts d2 (sched n verticesToProcess) of
                          Inl e \<Rightarrow> Some (Inl e)
                        | Inr d3 \<Rightarrow> f sched (Suc n) d3))) = Some r"
    and r: "r = Inr d1" and val: "\<forall>n vs. valid_schedule vs (sched n vs)"
    and pos: "\<forall>x \<in> set (map (Loop \<circ> snd) (Vertices d)). 0 \<le> x"
  show "sched_step\<^sup>*\<^sup>* (d, []) (d1, [])"
  proof (cases "HasFinished d")
    case True
    with body r show ?thesis by simp
  next
    case False
    with body r obtain d0 vs d3 where
      n: "Next d = (d0, Inr vs)" and
      ra: "run_attempts (if vs = [] then d0\<lparr>Status_Dag := Passed\<rparr> else d0) (sched n vs) = Inr d3"
      and f: "f sched (Suc n) d3 = Some r"
      by (auto simp: Let_def split: prod.splits sum.splits option.splits if_splits)
    from Next_ready_set [OF n] pos have l: "\<not> list_ex (\<lambda>v. Loop v < 0) vs"
      by (fastforce simp: list_ex_iff)
    from run_attempts_Loops [OF ra] Next_ready_set [OF n] pos
    have pos3: "\<forall>x \<in> set (map (Loop \<circ> snd) (Vertices d3)). 0 \<le> x"
      by (simp split: if_splits)
    from val have "valid_schedule vs (sched n vs)" by simp
    from sched_step.wave [OF False n l this]
    have "sched_step (d, []) (if vs = [] then d0\<lparr>Status_Dag := Passed\<rparr> else d0, sched n vs)" .
    moreover note run_attempts_steps [OF ra]
    moreover from IH [OF f] r val pos3 have "sched_step\<^sup>*\<^sup>* (d3, []) (d1, [])" by simp
    ultimately show ?thesis by simp
  qed
qed

text \<open>
  The transition system guards a wave against a negative \<open>Loop\<close> only, so the link
  takes graphs without one; \<open>wait_group\<close> then only removes executions.
\<close>

lemma ExecuteVertices_steps:
  "ExecuteVertices sched n d = Some (Inr d1) \<Longrightarrow> \<forall>n vs. valid_schedule vs (sched n vs) \<Longrightarrow>
   \<forall>x \<in> set (map (Loop \<circ> snd) (Vertices d)). 0 \<le> x \<Longrightarrow>
   sched_step\<^sup>*\<^sup>* (d, []) (d1, [])"
  using ExecuteVertices_steps_aux by blast

text \<open>After the self-loop on A the cycle check recurses for ever on the children of A.\<close>

lemma IsCyclic_range_self_loop_aux:
  assumes "IsCyclic_range cc from cs = Some r"
  shows "cc = fmupd ''A'' [''A''] fmempty \<longrightarrow> from = ''B'' \<longrightarrow> cs = [''A''] \<longrightarrow> False"
proof (rule IsCyclic_range.raw_induct [OF _ assms], intro impI)
  fix f cc "from" cs r
  assume IH: "\<And>cc from cs r. f cc from cs = Some r \<Longrightarrow>
                cc = fmupd ''A'' [''A''] fmempty \<longrightarrow> from = ''B'' \<longrightarrow> cs = [''A''] \<longrightarrow> False"
    and body: "(case cs of [] \<Rightarrow> Some False
      | child # rest \<Rightarrow>
          if child = from then Some True
          else Option.bind (f cc from (neighbours cc child))
                (\<lambda>b. if b then Some True else f cc from rest)) = Some r"
    and c: "cc = fmupd ''A'' [''A''] fmempty" "from = ''B''" "cs = [''A'']"
  from body c obtain b where "f cc from [''A''] = Some b"
    by (auto simp: neighbours_def bind_eq_Some_conv)
  from IH [OF this] c show False by simp
qed

section \<open>Cycle detection at edge insertion\<close>

text \<open>
  C1, at the input where the code departs from it: on the empty graph \<open>AddEdge\<close> accepts
  the edge from A to A, although A is then reachable from A and the edge is a cycle. The
  range loop of \<open>IsCyclic\<close> only compares the existing children of \<open>to\<close> with \<open>from\<close>,
  never \<open>to\<close> itself. On the graph this leaves, the next cycle check through A (here for
  an edge from B to A) never returns.
\<close>

theorem AddEdge_self_loop:
  "AddEdge NewDag ''A'' ''A'' =
     Some (Inr (NewDag\<lparr>ConnectionsParents := fmupd ''A'' [''A''] fmempty,
                       ConnectionsChildren := fmupd ''A'' [''A''] fmempty\<rparr>)) \<and>
   IsCyclic (NewDag\<lparr>ConnectionsParents := fmupd ''A'' [''A''] fmempty,
                   ConnectionsChildren := fmupd ''A'' [''A''] fmempty\<rparr>) ''B'' ''A'' = None"
proof -
  have "IsCyclic_range (fmupd ''A'' [''A''] fmempty) ''B'' [''A''] = None"
    using IsCyclic_range_self_loop_aux
    by (cases "IsCyclic_range (fmupd ''A'' [''A''] fmempty) ''B'' [''A'']") auto
  then show ?thesis
    by (simp add: AddEdge_def IsCyclic_def NewDag_def neighbours_def IsCyclic_range_Nil)
qed

text \<open>
  C10: when the edges stored in \<open>ConnectionsChildren\<close> (a finite map, so finitely many)
  have no cycle, \<open>IsCyclic\<close> returns for every pair of ids.
\<close>

theorem IsCyclic_terminates:
  "acyclic (child_rel d) \<Longrightarrow> \<exists>b. IsCyclic d from to = Some b"
  by (simp add: IsCyclic_acyclic)

theorem IsCyclic_terminates_witness:
  "acyclic (child_rel graph_AB) \<and> IsCyclic graph_AB ''A'' ''B'' = Some False \<and>
   IsCyclic graph_AB ''B'' ''A'' = Some True"
proof -
  have "acyclic ({} :: (string \<times> string) set)"
    by (simp add: acyclic_def)
  then have a: "acyclic (child_rel graph_AB)"
    by (simp add: child_rel_graph_AB)
  from IsCyclic_terminates [OF a, of "''A''" "''B''"] IsCyclic_terminates [OF a, of "''B''" "''A''"]
  show ?thesis using a
    by (simp add: IsCyclic_def graph_AB_def neighbours_def IsCyclic_range_Nil IsCyclic_range_Cons)
qed

text \<open>
  C8: on the graph with the vertices A, B, C, D, E the eight edges of \<open>main\<close> are all
  accepted in that order, and after them each of the edges from B to A, from D to A and
  from E to A is refused as cyclic.
\<close>

theorem main_graph_edges:
  "\<exists>d g. AddVertices NewDag main_vertices = Inr d \<and>
         AddEdges d main_edges = Some (Inr g) \<and>
         AddEdge g ''B'' ''A'' = Some (Inl (CyclicEdge ''B'' ''A'')) \<and>
         AddEdge g ''D'' ''A'' = Some (Inl (CyclicEdge ''D'' ''A'')) \<and>
         AddEdge g ''E'' ''A'' = Some (Inl (CyclicEdge ''E'' ''A''))"
  by (simp add: main_vertices_def main_edges_def NewDag_def AddVertex_def AddEdge_def
        IsCyclic_def neighbours_def IsCyclic_range_Nil IsCyclic_range_Cons)

section \<open>Readiness of a vertex\<close>

text \<open>
  C2: \<open>CanExecute d v\<close> is true exactly when the status of \<open>v\<close> is Pending and every id
  listed as a parent of \<open>v\<close> is a registered vertex whose status is not Pending; in
  particular a Pending vertex with no parents is ready.
\<close>

theorem CanExecute_iff:
  "(CanExecute d v \<longleftrightarrow>
      Status v = Pending \<and>
      (\<forall>parentID \<in> set (neighbours (ConnectionsParents d) (ID v)).
         \<exists>parent. map_of (Vertices d) parentID = Some parent \<and> Status parent \<noteq> Pending)) \<and>
   (neighbours (ConnectionsParents d) (ID v) = [] \<and> Status v = Pending \<longrightarrow> CanExecute d v)"
  unfolding CanExecute_def by (auto simp: CanExecute_range_iff)

theorem CanExecute_iff_witness:
  "CanExecute graph_AB vertex_B \<and>
   \<not> CanExecute graph_AB (vertex_B\<lparr>Status := Passed\<rparr>) \<and>
   \<not> CanExecute (graph_AB\<lparr>Vertices := [(''A'', vertex_A\<lparr>Status := Pending\<rparr>)]\<rparr>) vertex_B \<and>
   CanExecute graph_AB (vertex_A\<lparr>Status := Pending\<rparr>)"
  using CanExecute_iff [of graph_AB vertex_B]
    CanExecute_iff [of graph_AB "vertex_B\<lparr>Status := Passed\<rparr>"]
    CanExecute_iff [of "graph_AB\<lparr>Vertices := [(''A'', vertex_A\<lparr>Status := Pending\<rparr>)]\<rparr>" vertex_B]
    CanExecute_iff [of graph_AB "vertex_A\<lparr>Status := Pending\<rparr>"]
  by (simp add: graph_AB_def vertex_A_def vertex_B_def neighbours_def status_distinct)

text \<open>
  C9: the outcome of \<open>AddEdge\<close> does not depend on which vertices are registered, and a
  vertex one of whose listed parents is not registered cannot execute, so \<open>Next\<close> never
  returns it, whatever its status and the statuses of its other parents. No attempt
  changes the listed parents or registers an id, so this stays so during the run.
\<close>

theorem unregistered_parent:
  "AddEdge (d\<lparr>Vertices := vs\<rparr>) from to =
     map_option (map_sum id (\<lambda>d1. d1\<lparr>Vertices := vs\<rparr>)) (AddEdge d from to) \<and>
   (parentID \<in> set (neighbours (ConnectionsParents d) (ID v)) \<and>
    map_of (Vertices d) parentID = None \<longrightarrow>
      \<not> CanExecute d v \<and> (\<forall>ready. snd (Next d) = Inr ready \<longrightarrow> v \<notin> set ready) \<and>
      (\<forall>a d1. run_attempt d a = Inr d1 \<longrightarrow>
         parentID \<in> set (neighbours (ConnectionsParents d1) (ID v)) \<and>
         map_of (Vertices d1) parentID = None))"
proof (intro conjI impI allI)
  show "AddEdge (d\<lparr>Vertices := vs\<rparr>) from to =
     map_option (map_sum id (\<lambda>d1. d1\<lparr>Vertices := vs\<rparr>)) (AddEdge d from to)"
    by (rule AddEdge_Vertices)
next
  assume "parentID \<in> set (neighbours (ConnectionsParents d) (ID v)) \<and>
    map_of (Vertices d) parentID = None"
  then show "\<not> CanExecute d v"
    using CanExecute_unregistered by blast
next
  fix ready
  assume "parentID \<in> set (neighbours (ConnectionsParents d) (ID v)) \<and>
    map_of (Vertices d) parentID = None" and "snd (Next d) = Inr ready"
  then show "v \<notin> set ready"
    using CanExecute_unregistered Next_ready by blast
next
  fix a d1
  assume u: "parentID \<in> set (neighbours (ConnectionsParents d) (ID v)) \<and>
    map_of (Vertices d) parentID = None" and r: "run_attempt d a = Inr d1"
  from run_attempt_registered [OF r, of parentID] u
  show "parentID \<in> set (neighbours (ConnectionsParents d1) (ID v))"
    and "map_of (Vertices d1) parentID = None"
    by simp_all
qed

theorem unregistered_parent_witness:
  "AddEdge (NewDag\<lparr>Vertices := [(''B'', vertex_B)]\<rparr>) ''Z'' ''B'' = Some (Inr graph_ZB) \<and>
   ''Z'' \<in> set (neighbours (ConnectionsParents graph_ZB) (ID vertex_B)) \<and>
   map_of (Vertices graph_ZB) ''Z'' = None \<and>
   \<not> CanExecute graph_ZB vertex_B \<and> snd (Next graph_ZB) = Inr []"
  using unregistered_parent [where d = NewDag and vs = "[(''B'', vertex_B)]" and ?from = "''Z''"
      and to = "''B''" and parentID = "''Z''" and v = vertex_B]
    unregistered_parent [where d = graph_ZB and vs = "[]" and ?from = "''Z''"
      and to = "''B''" and parentID = "''Z''" and v = vertex_B]
  by (simp add: graph_ZB_def vertex_B_def NewDag_def AddEdge_def IsCyclic_def neighbours_def
      IsCyclic_range_Nil Next_def HasFailed_def CanExecute_def status_distinct Let_def)



section \<open>Status writes and the failed graph\<close>

text \<open>
  C3: for a vertex \<open>v\<close> registered under \<open>k\<close>: when the graph's status is not Failed,
  \<open>SetFail\<close> sets the vertex's status to Failed, and the graph's status becomes Failed
  exactly when \<open>CanFail v\<close> is false (otherwise it keeps its value); when the graph's
  status is Failed already, \<open>SetFail\<close> changes nothing.
\<close>

theorem SetFail_spec:
  "map_of (Vertices d) k = Some v \<Longrightarrow>
   (Status_Dag d \<noteq> Failed \<longrightarrow>
      (\<exists>d1. SetFail d k = Inr d1 \<and>
            map_option Status (map_of (Vertices d1) k) = Some Failed \<and>
            (Status_Dag d1 = Failed \<longleftrightarrow> \<not> CanFail v) \<and>
            (CanFail v \<longrightarrow> Status_Dag d1 = Status_Dag d))) \<and>
   (Status_Dag d = Failed \<longrightarrow> SetFail d k = Inr d)"
  by (simp add: SetFail_def HasFailed_def Let_def update_conv')

theorem SetFail_spec_witness:
  "map_of (Vertices graph_AB) ''B'' = Some vertex_B \<and> Status_Dag graph_AB \<noteq> Failed \<and>
   (\<exists>d1. SetFail graph_AB ''B'' = Inr d1 \<and>
         map_option Status (map_of (Vertices d1) ''B'') = Some Failed \<and>
         Status_Dag d1 = Failed) \<and>
   map_of (Vertices graph_AB) ''A'' = Some vertex_A \<and>
   (\<exists>d1. SetFail graph_AB ''A'' = Inr d1 \<and>
         map_option Status (map_of (Vertices d1) ''A'') = Some Failed \<and>
         Status_Dag d1 = Pending) \<and>
   SetFail (graph_AB\<lparr>Status_Dag := Failed\<rparr>) ''B'' = Inr (graph_AB\<lparr>Status_Dag := Failed\<rparr>)"
proof -
  have b: "map_of (Vertices graph_AB) ''B'' = Some vertex_B"
    and a: "map_of (Vertices graph_AB) ''A'' = Some vertex_A"
    and s: "Status_Dag graph_AB = Pending"
    and c: "CanFail vertex_A" "\<not> CanFail vertex_B"
    by (simp_all add: graph_AB_def vertex_A_def vertex_B_def)
  have b': "map_of (Vertices (graph_AB\<lparr>Status_Dag := Failed\<rparr>)) ''B'' = Some vertex_B"
    using b by simp
  show ?thesis
    using SetFail_spec [OF b] SetFail_spec [OF a] SetFail_spec [OF b'] a b s c
    by (auto simp: status_distinct)
qed


text \<open>
  C4: while the graph's status is Failed, \<open>SetPass\<close> and \<open>SetFail\<close> on any registered vertex
  return the graph as it is. So once \<open>SetFail\<close> on a vertex that cannot fail has set the
  graph's status to Failed, the remaining attempts of the wave change nothing and the
  loop of \<open>ExecuteVertices\<close> returns that graph.
\<close>

theorem Failed_graph_no_ops:
  "(Status_Dag d = Failed \<and> k \<in> fst ` set (Vertices d) \<longrightarrow>
      SetPass d k = Inr d \<and> SetFail d k = Inr d) \<and>
   (Status_Dag d \<noteq> Failed \<and> map_of (Vertices d) k = Some v \<and> \<not> CanFail v \<longrightarrow>
      (\<exists>d1. SetFail d k = Inr d1 \<and> Status_Dag d1 = Failed \<and>
            (\<forall>evs. fst ` set evs \<subseteq> fst ` set (Vertices d1) \<longrightarrow> run_attempts d1 evs = Inr d1) \<and>
            (\<forall>sched n. ExecuteVertices sched n d1 = Some (Inr d1))))"
proof (intro conjI impI)
  assume "Status_Dag d = Failed \<and> k \<in> fst ` set (Vertices d)"
  then show "SetPass d k = Inr d" "SetFail d k = Inr d"
    by (simp_all add: SetPass_Failed SetFail_Failed)
next
  assume a: "Status_Dag d \<noteq> Failed \<and> map_of (Vertices d) k = Some v \<and> \<not> CanFail v"
  define d1 where "d1 = d\<lparr>Vertices := AList.update k (v\<lparr>Status := Failed\<rparr>) (Vertices d),
                           Status_Dag := Failed\<rparr>"
  have "SetFail d k = Inr d1"
    using a by (simp add: SetFail_def HasFailed_def d1_def)
  moreover have f: "Status_Dag d1 = Failed"
    by (simp add: d1_def)
  moreover have "\<forall>evs. fst ` set evs \<subseteq> fst ` set (Vertices d1) \<longrightarrow> run_attempts d1 evs = Inr d1"
    using f by (simp add: run_attempts_Failed)
  moreover have "\<forall>sched n. ExecuteVertices sched n d1 = Some (Inr d1)"
    using f by (simp add: ExecuteVertices_finished HasFinished_def HasFailed_def)
  ultimately show "\<exists>d1. SetFail d k = Inr d1 \<and> Status_Dag d1 = Failed \<and>
            (\<forall>evs. fst ` set evs \<subseteq> fst ` set (Vertices d1) \<longrightarrow> run_attempts d1 evs = Inr d1) \<and>
            (\<forall>sched n. ExecuteVertices sched n d1 = Some (Inr d1))"
    by blast
qed

theorem Failed_graph_no_ops_witness:
  "Status_Dag (graph_AB\<lparr>Status_Dag := Failed\<rparr>) = Failed \<and>
   ''B'' \<in> fst ` set (Vertices (graph_AB\<lparr>Status_Dag := Failed\<rparr>)) \<and>
   SetPass (graph_AB\<lparr>Status_Dag := Failed\<rparr>) ''B'' = Inr (graph_AB\<lparr>Status_Dag := Failed\<rparr>) \<and>
   SetFail (graph_AB\<lparr>Status_Dag := Failed\<rparr>) ''B'' = Inr (graph_AB\<lparr>Status_Dag := Failed\<rparr>) \<and>
   Status_Dag graph_AB \<noteq> Failed \<and> map_of (Vertices graph_AB) ''B'' = Some vertex_B \<and>
   \<not> CanFail vertex_B \<and>
   (\<exists>d1. SetFail graph_AB ''B'' = Inr d1 \<and> Status_Dag d1 = Failed \<and>
         run_attempts d1 [(''A'', False), (''B'', True)] = Inr d1 \<and>
         ExecuteVertices (\<lambda>n vs. []) 0 d1 = Some (Inr d1))"
proof -
  have h: "Status_Dag graph_AB \<noteq> Failed \<and> map_of (Vertices graph_AB) ''B'' = Some vertex_B \<and>
           \<not> CanFail vertex_B"
    by (simp add: graph_AB_def vertex_B_def status_distinct)
  from Failed_graph_no_ops [of graph_AB "''B''" vertex_B] h obtain d1 where
    d1: "SetFail graph_AB ''B'' = Inr d1" "Status_Dag d1 = Failed"
      "\<forall>evs. fst ` set evs \<subseteq> fst ` set (Vertices d1) \<longrightarrow> run_attempts d1 evs = Inr d1"
      "\<forall>sched n. ExecuteVertices sched n d1 = Some (Inr d1)"
    by blast
  from d1(1) have "fst ` set (Vertices d1) = {''A'', ''B''}"
    by (auto simp: SetFail_def graph_AB_def vertex_B_def HasFailed_def status_distinct)
  with d1(3) [rule_format, of "[(''A'', False), (''B'', True)]"]
  have "run_attempts d1 [(''A'', False), (''B'', True)] = Inr d1"
    by (simp del: run_attempts.simps)
  with d1 h Failed_graph_no_ops [of "graph_AB\<lparr>Status_Dag := Failed\<rparr>" "''B''" vertex_B]
  show ?thesis
    by (simp add: graph_AB_def)
qed


section \<open>Freezing the topology\<close>

text \<open>
  C7: \<open>Next\<close> sets \<open>IsStarted\<close>, and so does a run of \<open>ExecuteVertices\<close> that starts on an
  unfinished graph. On a started graph \<open>AddVertex\<close> and \<open>AddEdge\<close> panic before they write
  anything, and \<open>SetPass\<close>, \<open>SetFail\<close> and \<open>ExecuteVertices\<close> leave the graph started, so
  every later call fails in the same way.
\<close>

theorem freeze_after_Next:
  "IsStarted (fst (Next d)) \<and>
   (IsStarted d \<longrightarrow>
      AddVertex d v = Inl AddVertexStarted \<and>
      AddEdge d from to = Some (Inl AddEdgeStarted) \<and>
      IsStarted (fst (Next d)) \<and>
      (\<forall>k d1. SetPass d k = Inr d1 \<longrightarrow> IsStarted d1) \<and>
      (\<forall>k d1. SetFail d k = Inr d1 \<longrightarrow> IsStarted d1) \<and>
      (\<forall>sched n d1. ExecuteVertices sched n d = Some (Inr d1) \<longrightarrow> IsStarted d1)) \<and>
   (\<not> HasFinished d \<longrightarrow>
      (\<forall>sched n d1. ExecuteVertices sched n d = Some (Inr d1) \<longrightarrow> IsStarted d1))"
  by (auto simp: Next_def Let_def AddVertex_def AddEdge_def
      dest: SetPass_IsStarted SetFail_IsStarted ExecuteVertices_IsStarted)

theorem freeze_after_Next_witness:
  "\<not> IsStarted graph_AB \<and> IsStarted (fst (Next graph_AB)) \<and>
   AddVertex (fst (Next graph_AB)) vertex_A = Inl AddVertexStarted \<and>
   AddEdge (fst (Next graph_AB)) ''A'' ''B'' = Some (Inl AddEdgeStarted) \<and>
   (\<exists>d1. SetPass (fst (Next graph_AB)) ''B'' = Inr d1 \<and> IsStarted d1)"
proof -
  have n: "\<not> IsStarted graph_AB"
    by (simp add: graph_AB_def)
  have s: "IsStarted (fst (Next graph_AB))"
    using freeze_after_Next [of graph_AB] by (rule conjunct1)
  obtain d1 where p: "SetPass (fst (Next graph_AB)) ''B'' = Inr d1"
    by (simp add: SetPass_def Next_def Let_def graph_AB_def HasFailed_def status_distinct)
  note f = freeze_after_Next [of "fst (Next graph_AB)" vertex_A "''A''" "''B''",
      THEN conjunct2, THEN conjunct1, rule_format, OF s]
  from f have "AddVertex (fst (Next graph_AB)) vertex_A = Inl AddVertexStarted"
    and "AddEdge (fst (Next graph_AB)) ''A'' ''B'' = Some (Inl AddEdgeStarted)"
    and "\<forall>k d1. SetPass (fst (Next graph_AB)) k = Inr d1 \<longrightarrow> IsStarted d1"
    by blast+
  with n s p show ?thesis
    by blast
qed


section \<open>The run\<close>




text \<open>
  C6, with the bounds on \<open>Loop\<close> it needs: take a graph whose vertices are registered
  under their own ids, whose status is not yet Passed or Failed, and whose vertices all
  have \<open>Loop\<close> at least 1, the \<open>Loop\<close>s summing to less than \<open>2 ^ 31\<close> (so that the
  32-bit counter of the wait group counts the goroutines of every wave). Under every
  schedule in which no vertex that cannot fail reports failure, \<open>ExecuteVertices\<close>
  returns with the graph's status Passed; and when the parent edges are acyclic and
  connect registered vertices, no vertex is Pending in the graph it returns.
\<close>

theorem run_terminates_Passed:
  assumes "keyed d" and "\<not> HasFinished d" and "\<forall>(k, v) \<in> set (Vertices d). 1 \<le> Loop v"
    and "sum_list (map (Loop \<circ> snd) (Vertices d)) < 2 ^ 31"
    and "\<forall>n vs. valid_schedule vs (sched n vs)"
    and "\<forall>n vs k v. (k, False) \<in> set (sched n vs) \<longrightarrow> map_of (Vertices d) k = Some v \<longrightarrow> CanFail v"
  shows "\<exists>d1. ExecuteVertices sched n d = Some (Inr d1) \<and> Status_Dag d1 = Passed \<and>
           (acyclic (parent_rel d) \<and>
            (\<forall>(p, c) \<in> parent_rel d. p \<in> fst ` set (Vertices d) \<and> c \<in> fst ` set (Vertices d)) \<longrightarrow>
            (\<forall>(k, v) \<in> set (Vertices d1). Status v \<noteq> Pending))"
proof -
  from run_terminates_aux [OF assms(5,1,2,3,4,6), of n] obtain d1 where
    d1: "ExecuteVertices sched n d = Some (Inr d1)" "Status_Dag d1 = Passed" "keyed d1"
      "ConnectionsParents d1 = ConnectionsParents d"
      "fst ` set (Vertices d1) = fst ` set (Vertices d)"
      "filter (CanExecute d1) (map snd (Vertices d1)) = []"
    by blast
  have "\<forall>(k, v) \<in> set (Vertices d1). Status v \<noteq> Pending"
    if a: "acyclic (parent_rel d)"
      and g: "\<forall>(p, c) \<in> parent_rel d. p \<in> fst ` set (Vertices d) \<and> c \<in> fst ` set (Vertices d)"
  proof -
    from d1(4) have pr: "parent_rel d1 = parent_rel d" by (simp add: parent_rel_def)
    with g d1(5) have "\<forall>(p, c) \<in> parent_rel d1. p \<in> fst ` set (Vertices d1)" by auto
    with no_ready_no_pending [OF d1(3) _ _ d1(6)] a pr have "pending d1 = {}" by simp
    with d1(3) show ?thesis
      by (auto simp: pending_def keyed_map_of)
  qed
  with d1(1,2) show ?thesis by blast
qed

theorem run_terminates_Passed_witness:
  "Status_Dag graph_AB_fresh = Pending \<and>
   map (\<lambda>(k, v). (k, ID v, Status v, Loop v)) (Vertices graph_AB_fresh) =
     [(''A'', ''A'', Pending, 1), (''B'', ''B'', Pending, 1)] \<and>
   acyclic (parent_rel graph_AB_fresh) \<and>
   (\<exists>d1. ExecuteVertices only_B_passes 0 graph_AB_fresh = Some (Inr d1) \<and>
         Status_Dag d1 = Passed \<and> Pending \<notin> (\<lambda>(k, v). Status v) ` set (Vertices d1))"
proof -
  have k: "keyed graph_AB_fresh"
    by (simp add: keyed_def graph_AB_fresh_def graph_AB_def vertex_A_def vertex_B_def)
  have u: "\<not> HasFinished graph_AB_fresh"
    by (simp add: HasFinished_def HasFailed_def HasSucceeded_def graph_AB_fresh_def
        graph_AB_def status_distinct)
  have p: "\<forall>(k, v) \<in> set (Vertices graph_AB_fresh). 1 \<le> Loop v"
    by (simp add: graph_AB_fresh_def graph_AB_def vertex_A_def vertex_B_def)
  have s: "sum_list (map (Loop \<circ> snd) (Vertices graph_AB_fresh)) < 2 ^ 31"
    by (simp add: graph_AB_fresh_def graph_AB_def vertex_A_def vertex_B_def)
  have v: "\<forall>n vs. valid_schedule vs (only_B_passes n vs)"
    by (simp add: valid_schedule_only_B_passes)
  have f: "\<forall>n vs k v. (k, False) \<in> set (only_B_passes n vs) \<longrightarrow>
             map_of (Vertices graph_AB_fresh) k = Some v \<longrightarrow> CanFail v"
    by (auto simp: only_B_passes_def graph_AB_fresh_def graph_AB_def vertex_A_def
        split: if_splits)
  have "acyclic ({} :: (string \<times> string) set)"
    by (simp add: acyclic_def)
  then have a: "acyclic (parent_rel graph_AB_fresh)"
    by (simp add: parent_rel_graph_AB_fresh)
  have r: "\<forall>(p, c) \<in> parent_rel graph_AB_fresh.
             p \<in> fst ` set (Vertices graph_AB_fresh) \<and> c \<in> fst ` set (Vertices graph_AB_fresh)"
    unfolding parent_rel_graph_AB_fresh by (simp add: graph_AB_fresh_def graph_AB_def)
  have i: "Status_Dag graph_AB_fresh = Pending \<and>
     map (\<lambda>(k, v). (k, ID v, Status v, Loop v)) (Vertices graph_AB_fresh) =
       [(''A'', ''A'', Pending, 1), (''B'', ''B'', Pending, 1)]"
    by (simp add: graph_AB_fresh_def graph_AB_def vertex_A_def vertex_B_def)
  from run_terminates_Passed [OF k u p s v f, of 0] a r obtain d1 where
    "ExecuteVertices only_B_passes 0 graph_AB_fresh = Some (Inr d1)" "Status_Dag d1 = Passed"
    "\<forall>(k, v) \<in> set (Vertices d1). Status v \<noteq> Pending"
    by blast
  then have "\<exists>d1. ExecuteVertices only_B_passes 0 graph_AB_fresh = Some (Inr d1) \<and>
         Status_Dag d1 = Passed \<and> Pending \<notin> (\<lambda>(k, v). Status v) ` set (Vertices d1)"
    by force
  with i a show ?thesis
    by blast
qed

text \<open>
  C6 as stated fails without the lower bound on \<open>Loop\<close>: for a single Pending vertex
  with \<open>Loop = 0\<close> and no edges, every wave finds the vertex ready, starts no attempt
  and leaves it Pending, so the loop of \<open>ExecuteVertices\<close> never returns. (Without the
  upper bound it fails too: \<open>run_Loop_2_31_panics\<close>.)
\<close>

theorem run_Loop0_never_returns:
  "Status_Dag graph_Loop0 = Pending \<and> parent_rel graph_Loop0 = {} \<and>
   all_pass 0 (map snd (Vertices graph_Loop0)) = [] \<and>
   ExecuteVertices all_pass 0 graph_Loop0 = None"
proof -
  have "ExecuteVertices all_pass 0 graph_Loop0 = None"
  proof (cases "ExecuteVertices all_pass 0 graph_Loop0")
    case None
    then show ?thesis .
  next
    case (Some r)
    from run_Loop0_aux [OF this] show ?thesis
      by (simp add: graph_Loop0_def NewDag_def)
  qed
  moreover have "parent_rel graph_Loop0 = {}"
    by (auto simp: parent_rel_iff graph_Loop0_def NewDag_def neighbours_def)
  ultimately show ?thesis
    by (simp add: graph_Loop0_def NewDag_def all_pass_def dispatched_def)
qed

end
